theory Spec2Isabelle
  imports Main "HOL-Library.Word"
begin

section \<open>Custom filter lists: the store, the domain decomposition and the reload check\<close>

text \<open>
  This theory embeds \<^verbatim>\<open>intel/customlists/module.go\<close>. Go strings are byte
  sequences and become \<^typ>\<open>string\<close>; the only separator the code looks at is the
  ASCII dot, which never occurs inside a multi-byte UTF-8 sequence, so the rune-wise
  library routines are modelled byte-wise. The reader-writer lock is not modelled: every
  function below is one critical section, run from start to end.
\<close>

subsection \<open>The pieces of the Go \<^verbatim>\<open>strings\<close> package used by the module\<close>

definition dot :: char where
  "dot = CHR ''.''"

text \<open>\<^verbatim>\<open>strings.Trim(s, cutset)\<close> with a one-byte ASCII cutset trims that byte on
  the right, then on the left.\<close>

definition trimRightByte :: "string \<Rightarrow> char \<Rightarrow> string" where
  "trimRightByte s c = rev (dropWhile (\<lambda>b. b = c) (rev s))"

definition trimLeftByte :: "string \<Rightarrow> char \<Rightarrow> string" where
  "trimLeftByte s c = dropWhile (\<lambda>b. b = c) s"

definition Trim :: "string \<Rightarrow> char \<Rightarrow> string" where
  "Trim s c = trimLeftByte (trimRightByte s c) c"

text \<open>\<^verbatim>\<open>strings.FieldsFunc(s, f)\<close>: one pass over the string; the second argument of
  the loop is the field that is open at the current position, if any. A separator
  closes the open field, any other byte opens or extends one, and the end of the
  string closes the last field. Empty fields are never produced.\<close>

fun FieldsFunc_loop :: "(char \<Rightarrow> bool) \<Rightarrow> string \<Rightarrow> string option \<Rightarrow> string list" where
  "FieldsFunc_loop f [] None = []"
| "FieldsFunc_loop f [] (Some w) = [w]"
| "FieldsFunc_loop f (r # s) None =
     (if f r then FieldsFunc_loop f s None else FieldsFunc_loop f s (Some [r]))"
| "FieldsFunc_loop f (r # s) (Some w) =
     (if f r then w # FieldsFunc_loop f s None else FieldsFunc_loop f s (Some (w @ [r])))"

definition FieldsFunc :: "string \<Rightarrow> (char \<Rightarrow> bool) \<Rightarrow> string list" where
  "FieldsFunc s f = FieldsFunc_loop f s None"

text \<open>\<^verbatim>\<open>strings.Join(elems, sep)\<close>.\<close>

fun Join :: "string list \<Rightarrow> string \<Rightarrow> string" where
  "Join [] sep = []"
| "Join [e] sep = e"
| "Join (e # es) sep = e @ sep @ Join es sep"

subsection \<open>splitDomain\<close>

text \<open>
  \<^verbatim>\<open>publicsuffix.PublicSuffix\<close> belongs to \<^verbatim>\<open>golang.org/x/net\<close> and is a parameter
  \<open>PublicSuffix\<close> of the model (its second result, the ICANN flag, is discarded by the
  caller and left out). The slice expression \<^verbatim>\<open>domain[:len(domain)-len(suffix)]\<close>
  panics when the suffix is longer than the domain; the panic is the result \<open>None\<close>.
  The string \<open>d\<close> built in the loop always contains a dot, so reading its last byte
  never fails.
\<close>

definition candidate :: "string list \<Rightarrow> string \<Rightarrow> nat \<Rightarrow> string" where
  "candidate splitted suffix idx =
     (let d = Join (drop idx splitted) [dot] @ [dot] @ suffix
      in if last d \<noteq> dot then d @ [dot] else d)"

definition splitDomain :: "(string \<Rightarrow> string) \<Rightarrow> string \<Rightarrow> string list option" where
  "splitDomain PublicSuffix domain0 =
     (let domain = Trim domain0 dot;
          suffix = PublicSuffix domain
      in if suffix = domain then Some [domain]
         else if length domain < length suffix then None
         else
           let domainWithoutSuffix = take (length domain - length suffix) domain;
               domainWithoutSuffix' = Trim domainWithoutSuffix dot;
               splitted = FieldsFunc domainWithoutSuffix' (\<lambda>r. r = dot)
           in Some (map (candidate splitted suffix) [0..<length splitted]))"

subsection \<open>The package state\<close>

text \<open>
  The package-level variables. A Go \<^verbatim>\<open>map[K]struct{}\<close> is a set of keys; \<^verbatim>\<open>uint\<close>
  is taken at 64 bits. A \<^verbatim>\<open>time.Time\<close> is the instant it denotes, in nanoseconds, so
  that \<^verbatim>\<open>Equal\<close> is equality. \<open>parserTask\<close> holds the time the task is scheduled for.
\<close>

type_synonym time = int

record state =
  ipAddressesFilterList :: "string set"
  domainsFilterList :: "string set"
  autonomousSystemsFilterList :: "64 word set"
  countryCodesFilterList :: "string set"
  filterListFilePath :: string
  filterListFileModifiedTime :: time
  parserTask :: "time option"

subsection \<open>Lookups\<close>

text \<open>\<^verbatim>\<open>net.IP.String\<close> is from the standard library and is the parameter \<open>String\<close>.\<close>

definition LookupIP :: "(8 word list \<Rightarrow> string) \<Rightarrow> state \<Rightarrow> 8 word list \<Rightarrow> bool" where
  "LookupIP String st ip = (String ip \<in> ipAddressesFilterList st)"

fun LookupDomain_loop :: "state \<Rightarrow> string list \<Rightarrow> bool \<times> string" where
  "LookupDomain_loop st [] = (False, [])"
| "LookupDomain_loop st (domain # listOfDomains) =
     (if domain \<in> domainsFilterList st then (True, domain)
      else LookupDomain_loop st listOfDomains)"

definition LookupDomain ::
    "(string \<Rightarrow> string) \<Rightarrow> state \<Rightarrow> string \<Rightarrow> bool \<Rightarrow> (bool \<times> string) option" where
  "LookupDomain PublicSuffix st fullDomain filterSubdomains =
     (if filterSubdomains then
        (case splitDomain PublicSuffix fullDomain of
           None \<Rightarrow> None
         | Some listOfDomains \<Rightarrow> Some (LookupDomain_loop st listOfDomains))
      else Some (fullDomain \<in> domainsFilterList st, fullDomain))"

definition LookupASN :: "state \<Rightarrow> 64 word \<Rightarrow> bool" where
  "LookupASN st number = (number \<in> autonomousSystemsFilterList st)"

definition LookupCountry :: "state \<Rightarrow> string \<Rightarrow> bool" where
  "LookupCountry st countryCode = (countryCode \<in> countryCodesFilterList st)"

subsection \<open>checkAndUpdateFilterList\<close>

text \<open>
  What the function reads from outside the package is gathered in \<open>env\<close>: the
  configured path returned by \<^verbatim>\<open>getFilePath()\<close>, the two readings of \<^verbatim>\<open>time.Now()\<close>
  (one for the schedule, one as the fallback modification time) and \<^verbatim>\<open>os.Stat\<close>,
  which gives the modification time of a path or fails (\<open>None\<close>). What it does to the
  outside is returned as the list of events, in the order they happen.
\<close>

type_synonym error = string

datatype event = EvSchedule time | EvStat string | EvParse string

record env =
  getFilePath :: string
  now_schedule :: time
  now_stat :: time
  Stat :: "string \<Rightarrow> time option"

definition Minute :: int where
  "Minute = 60 * 1000000000"

text \<open>
  \<^verbatim>\<open>parseFile\<close> is defined in another file of the package. It is the parameter
  \<open>parseFile\<close>, a function from the path and the package state to an error, if any, and
  the package state it leaves behind.
\<close>

definition checkAndUpdateFilterList ::
    "(string \<Rightarrow> state \<Rightarrow> error option \<times> state) \<Rightarrow> env \<Rightarrow> state \<Rightarrow> state \<times> event list" where
  "checkAndUpdateFilterList parseFile e st =
     (let filePath = getFilePath e
      in if filePath = [] then (st, [])
         else
           let nextCheck = now_schedule e + 1 * Minute;
               st1 = st\<lparr>parserTask := Some nextCheck\<rparr>;
               modifiedTime = (case Stat e filePath of
                                 Some modTime \<Rightarrow> modTime
                               | None \<Rightarrow> now_stat e)
           in if filterListFilePath st1 \<noteq> filePath
                 \<or> filterListFileModifiedTime st1 \<noteq> modifiedTime
              then
                (case parseFile filePath st1 of
                   (Some err, st2) \<Rightarrow>
                     (st2, [EvSchedule nextCheck, EvStat filePath, EvParse filePath])
                 | (None, st2) \<Rightarrow>
                     (st2\<lparr>filterListFileModifiedTime := modifiedTime,
                          filterListFilePath := filePath\<rparr>,
                      [EvSchedule nextCheck, EvStat filePath, EvParse filePath]))
              else (st1, [EvSchedule nextCheck, EvStat filePath]))"

text \<open>
  Modelled from the spec: \<^verbatim>\<open>parseFile\<close>, whose source is not among the files of the
  module given here. The spec has the parser turn the file at the path into four
  classified sets or fail; on success all four sets of the store are replaced together,
  on failure the store is left untouched. Reading and classifying the file is the
  parameter \<open>parser\<close>.
\<close>

type_synonym four_sets = "string set \<times> string set \<times> 64 word set \<times> string set"

definition parseFile :: "(string \<Rightarrow> error + four_sets) \<Rightarrow> string \<Rightarrow> state \<Rightarrow> error option \<times> state" where
  "parseFile parser filePath st =
     (case parser filePath of
        Inl err \<Rightarrow> (Some err, st)
      | Inr (ips, domains, asns, countries) \<Rightarrow>
          (None, st\<lparr>ipAddressesFilterList := ips,
                    domainsFilterList := domains,
                    autonomousSystemsFilterList := asns,
                    countryCodesFilterList := countries\<rparr>))"

text \<open>The part of the state a reload may replace: the four sets, the recorded path
  and the recorded modification time.\<close>

definition loaded :: "state \<Rightarrow> four_sets \<times> string \<times> time" where
  "loaded st =
     ((ipAddressesFilterList st, domainsFilterList st,
       autonomousSystemsFilterList st, countryCodesFilterList st),
      filterListFilePath st, filterListFileModifiedTime st)"

fun is_parse :: "event \<Rightarrow> bool" where
  "is_parse (EvParse p) = True"
| "is_parse _ = False"

fun is_schedule :: "event \<Rightarrow> bool" where
  "is_schedule (EvSchedule t) = True"
| "is_schedule _ = False"

subsection \<open>Vocabulary of the statements\<close>

text \<open>A field, as \<open>FieldsFunc\<close> produces it: not empty and free of separators. A
  label of a domain name is a field for the dot.\<close>

definition wf_label :: "(char \<Rightarrow> bool) \<Rightarrow> string \<Rightarrow> bool" where
  "wf_label f w = (w \<noteq> [] \<and> list_all (\<lambda>c. \<not> f c) w)"

definition is_label :: "string \<Rightarrow> bool" where
  "is_label = wf_label (\<lambda>r. r = dot)"

text \<open>The number of dots a string ends with.\<close>

definition trailing_dots :: "string \<Rightarrow> nat" where
  "trailing_dots s = length (takeWhile (\<lambda>c. c = dot) (rev s))"

text \<open>\<^verbatim>\<open>strings.HasSuffix\<close>, used to say that a public suffix of a name is a suffix
  of that name.\<close>

definition HasSuffix :: "string \<Rightarrow> string \<Rightarrow> bool" where
  "HasSuffix s suffix =
     (length suffix \<le> length s \<and> drop (length s - length suffix) s = suffix)"

text \<open>The candidate that starts at label \<open>i\<close> of a name with the given labels in
  front of the given public suffix.\<close>

definition cand :: "string list \<Rightarrow> string \<Rightarrow> nat \<Rightarrow> string" where
  "cand labels suffix i = Join (drop i labels) [dot] @ [dot] @ suffix @ [dot]"

subsection \<open>Concrete instances\<close>

text \<open>
  A small public suffix lookup for the examples: the longest rule of a table that the
  domain equals or ends with after a dot, and the last label when no rule applies.
\<close>

definition lastLabel :: "string \<Rightarrow> string" where
  "lastLabel s = rev (takeWhile (\<lambda>c. c \<noteq> dot) (rev s))"

definition rule_applies :: "string \<Rightarrow> string \<Rightarrow> bool" where
  "rule_applies domain rule = (domain = rule \<or> HasSuffix domain (dot # rule))"

definition longer :: "string \<Rightarrow> string \<Rightarrow> string" where
  "longer rule best = (if length best < length rule then rule else best)"

definition PublicSuffix_table :: "string list \<Rightarrow> string \<Rightarrow> string" where
  "PublicSuffix_table rules domain =
     (case filter (rule_applies domain) rules of
        [] \<Rightarrow> lastLabel domain
      | r # rs \<Rightarrow> fold longer rs r)"

definition PublicSuffix_demo :: "string \<Rightarrow> string" where
  "PublicSuffix_demo = PublicSuffix_table [''com'', ''uk'', ''co.uk'']"

definition st_demo :: state where
  "st_demo =
     \<lparr>ipAddressesFilterList = {''203.0.113.5''},
      domainsFilterList = {''example.co.uk.''},
      autonomousSystemsFilterList = {1234},
      countryCodesFilterList = {''US''},
      filterListFilePath = ''/etc/list.txt'',
      filterListFileModifiedTime = 1000,
      parserTask = Some 5000\<rparr>"

definition env_demo :: env where
  "env_demo =
     \<lparr>getFilePath = ''/etc/list.txt'',
      now_schedule = 7000,
      now_stat = 7001,
      Stat = (\<lambda>p. if p = ''/etc/list.txt'' then Some 1000 else None)\<rparr>"

definition env_unset :: env where
  "env_unset = env_demo\<lparr>getFilePath := []\<rparr>"

definition env_missing :: env where
  "env_missing = env_demo\<lparr>Stat := (\<lambda>p. None)\<rparr>"

definition env_touched :: env where
  "env_touched = env_demo\<lparr>Stat := (\<lambda>p. Some 2000)\<rparr>"

definition parser_bad :: "string \<Rightarrow> error + four_sets" where
  "parser_bad p = Inl ''malformed''"

definition parser_good :: "string \<Rightarrow> error + four_sets" where
  "parser_good p = Inr ({}, {''evil.example''}, {}, {})"

section \<open>Properties\<close>

subsection \<open>Trimming\<close>

lemma last_dropWhile: "dropWhile P xs \<noteq> [] \<Longrightarrow> last (dropWhile P xs) = last xs"
  by (induction xs) (auto split: if_splits)

lemma trimRightByte_last: "trimRightByte s c \<noteq> [] \<Longrightarrow> last (trimRightByte s c) \<noteq> c"
  unfolding trimRightByte_def
  using hd_dropWhile [of "\<lambda>b. b = c" "rev s"] by (simp add: last_rev)

lemma Trim_hd: "Trim s c \<noteq> [] \<Longrightarrow> hd (Trim s c) \<noteq> c"
  unfolding Trim_def trimLeftByte_def
  using hd_dropWhile [of "\<lambda>b. b = c" "trimRightByte s c"] by simp

lemma Trim_last: "Trim s c \<noteq> [] \<Longrightarrow> last (Trim s c) \<noteq> c"
proof -
  assume ne: "Trim s c \<noteq> []"
  then have "last (Trim s c) = last (trimRightByte s c)"
    unfolding Trim_def trimLeftByte_def by (rule last_dropWhile)
  moreover from ne have "trimRightByte s c \<noteq> []"
    unfolding Trim_def trimLeftByte_def by auto
  ultimately show ?thesis using trimRightByte_last by simp
qed

lemma trimRightByte_id: "s = [] \<or> last s \<noteq> c \<Longrightarrow> trimRightByte s c = s"
  unfolding trimRightByte_def by (cases s rule: rev_cases) auto

lemma trimLeftByte_id: "s = [] \<or> hd s \<noteq> c \<Longrightarrow> trimLeftByte s c = s"
  unfolding trimLeftByte_def by (cases s) auto

lemma Trim_id: "s = [] \<or> (hd s \<noteq> c \<and> last s \<noteq> c) \<Longrightarrow> Trim s c = s"
  unfolding Trim_def by (auto simp: trimRightByte_id trimLeftByte_id)

lemma trimRightByte_snoc: "trimRightByte (s @ [c]) c = trimRightByte s c"
  unfolding trimRightByte_def by simp

lemma Trim_snoc: "s \<noteq> [] \<Longrightarrow> hd s \<noteq> c \<Longrightarrow> last s \<noteq> c \<Longrightarrow> Trim (s @ [c]) c = s"
  unfolding Trim_def by (simp add: trimRightByte_snoc trimRightByte_id trimLeftByte_id)

lemma dropWhile_keeps: "x \<in> set xs \<Longrightarrow> \<not> P x \<Longrightarrow> x \<in> set (dropWhile P xs)"
  by (induction xs) auto

lemma Trim_keeps: "b \<in> set s \<Longrightarrow> b \<noteq> c \<Longrightarrow> b \<in> set (Trim s c)"
  unfolding Trim_def trimLeftByte_def trimRightByte_def
  by (simp add: dropWhile_keeps)

subsection \<open>Fields and joins\<close>

lemma FieldsFunc_loop_wf:
  "(case cur of None \<Rightarrow> True | Some w \<Rightarrow> wf_label f w) \<Longrightarrow>
   list_all (wf_label f) (FieldsFunc_loop f s cur)"
proof (induction s arbitrary: cur)
  case Nil
  then show ?case by (cases cur) auto
next
  case (Cons r s)
  show ?case
  proof (cases cur)
    case None
    then show ?thesis using Cons.IH [of None] Cons.IH [of "Some [r]"]
      by (auto simp: wf_label_def)
  next
    case (Some w)
    then show ?thesis using Cons.prems Cons.IH [of None] Cons.IH [of "Some (w @ [r])"]
      by (auto simp: wf_label_def)
  qed
qed

lemma FieldsFunc_wf: "list_all (wf_label f) (FieldsFunc s f)"
  unfolding FieldsFunc_def by (rule FieldsFunc_loop_wf) simp

lemma FieldsFunc_loop_Some_nonempty: "FieldsFunc_loop f s (Some w) \<noteq> []"
  by (induction s arbitrary: w) auto

lemma FieldsFunc_loop_nonempty: "\<exists>c\<in>set s. \<not> f c \<Longrightarrow> FieldsFunc_loop f s cur \<noteq> []"
proof (induction s arbitrary: cur)
  case Nil
  then show ?case by simp
next
  case (Cons r s)
  then show ?case
    by (cases cur) (auto simp: FieldsFunc_loop_Some_nonempty)
qed

lemma FieldsFunc_loop_label:
  "list_all (\<lambda>c. \<not> f c) l \<Longrightarrow> FieldsFunc_loop f (l @ s) (Some w) = FieldsFunc_loop f s (Some (w @ l))"
  by (induction l arbitrary: w) auto

lemma FieldsFunc_loop_label_None:
  "wf_label f l \<Longrightarrow> FieldsFunc_loop f (l @ s) None = FieldsFunc_loop f s (Some l)"
  by (cases l) (auto simp: wf_label_def FieldsFunc_loop_label [of f _ s "[_]", simplified])

lemma FieldsFunc_loop_Join:
  "list_all (wf_label (\<lambda>r. r = c)) ls \<Longrightarrow> FieldsFunc_loop (\<lambda>r. r = c) (Join ls [c]) None = ls"
proof (induction ls "[c]" rule: Join.induct)
  case 1
  then show ?case by simp
next
  case (2 e)
  then show ?case
    using FieldsFunc_loop_label_None [of "\<lambda>r. r = c" e "[]"] by simp
next
  case (3 e v va)
  then show ?case
    using FieldsFunc_loop_label_None [of "\<lambda>r. r = c" e "c # Join (v # va) [c]"] by simp
qed

lemma Join_last:
  "ls \<noteq> [] \<Longrightarrow> last ls \<noteq> [] \<Longrightarrow> Join ls sep \<noteq> [] \<and> last (Join ls sep) = last (last ls)"
  by (induction ls sep rule: Join.induct) auto

lemma Join_hd:
  "ls \<noteq> [] \<Longrightarrow> hd ls \<noteq> [] \<Longrightarrow> hd (Join ls sep) = hd (hd ls)"
  by (induction ls sep rule: Join.induct) auto

lemma drop_last: "xs \<noteq> [] \<Longrightarrow> drop (length xs - Suc 0) xs = [last xs]"
  by (cases xs rule: rev_cases) auto

subsection \<open>Trailing dots of the candidates\<close>

lemma trailing_dots_snoc: "s \<noteq> [] \<Longrightarrow> last s \<noteq> dot \<Longrightarrow> trailing_dots (s @ [dot]) = 1"
  unfolding trailing_dots_def by (cases s rule: rev_cases) auto

lemma trailing_dots_none: "s = [] \<or> last s \<noteq> dot \<Longrightarrow> trailing_dots s = 0"
  unfolding trailing_dots_def by (cases s rule: rev_cases) auto

lemma candidate_trailing:
  assumes idx: "idx < length splitted"
    and wf: "list_all (wf_label (\<lambda>r. r = dot)) splitted"
    and sfx: "suffix = [] \<or> last suffix \<noteq> dot"
  shows "trailing_dots (candidate splitted suffix idx) = 1"
proof -
  define J where "J = Join (drop idx splitted) [dot]"
  have ne: "drop idx splitted \<noteq> []" using idx by simp
  have "last (drop idx splitted) = last splitted" using idx by simp
  moreover have "wf_label (\<lambda>r. r = dot) (last splitted)"
    using wf idx by (cases splitted rule: rev_cases) (auto simp: list_all_iff)
  ultimately have lbl: "wf_label (\<lambda>r. r = dot) (last (drop idx splitted))" by simp
  then have J: "J \<noteq> []" "last J \<noteq> dot"
    using Join_last [OF ne, of "[dot]"]
    by (auto simp: J_def wf_label_def list_all_iff)
  show ?thesis
  proof (cases "suffix = []")
    case True
    then have "candidate splitted suffix idx = J @ [dot]"
      by (simp add: candidate_def J_def)
    then show ?thesis using J by (simp add: trailing_dots_snoc)
  next
    case False
    with sfx have "last suffix \<noteq> dot" by simp
    with False have "candidate splitted suffix idx = (J @ [dot] @ suffix) @ [dot]"
      and "last (J @ [dot] @ suffix) \<noteq> dot"
      by (simp_all add: candidate_def J_def)
    then show ?thesis using trailing_dots_snoc [of "J @ [dot] @ suffix"] by simp
  qed
qed

lemma splitDomain_contract:
  assumes contract: "HasSuffix (Trim domain dot) (PublicSuffix (Trim domain dot))"
    and nonbare: "PublicSuffix (Trim domain dot) \<noteq> Trim domain dot"
  shows "\<exists>cs. splitDomain PublicSuffix domain = Some cs \<and> cs \<noteq> []
            \<and> list_all (\<lambda>c. trailing_dots c = 1) cs"
proof -
  define D0 where "D0 = Trim domain dot"
  define S where "S = PublicSuffix D0"
  define P where "P = take (length D0 - length S) D0"
  define splitted where "splitted = FieldsFunc (Trim P dot) (\<lambda>r. r = dot)"
  have len: "length S \<le> length D0" and dr: "drop (length D0 - length S) D0 = S"
    using contract by (simp_all add: HasSuffix_def D0_def S_def)
  have D0: "D0 = P @ S" unfolding P_def using dr append_take_drop_id [of "length D0 - length S" D0] by simp
  have neq: "S \<noteq> D0" using nonbare by (simp add: D0_def S_def)
  then have P_ne: "P \<noteq> []" using D0 by auto
  then have D0_ne: "D0 \<noteq> []" using D0 by simp
  then have hdD: "hd D0 \<noteq> dot" and lastD: "last D0 \<noteq> dot"
    unfolding D0_def by (rule Trim_hd, rule Trim_last)
  have "hd P \<noteq> dot" using hdD D0 P_ne by (metis hd_append2)
  moreover have "hd P \<in> set P" using P_ne by simp
  ultimately have "hd P \<in> set (Trim P dot)" by (simp add: Trim_keeps)
  with \<open>hd P \<noteq> dot\<close> have "\<exists>c\<in>set (Trim P dot). \<not> c = dot" by blast
  then have sp_ne: "splitted \<noteq> []"
    unfolding splitted_def FieldsFunc_def by (rule FieldsFunc_loop_nonempty)
  have wf: "list_all (wf_label (\<lambda>r. r = dot)) splitted"
    unfolding splitted_def by (rule FieldsFunc_wf)
  have sfx: "S = [] \<or> last S \<noteq> dot" using lastD D0 by (cases "S = []") auto
  have sd: "splitDomain PublicSuffix domain = Some (map (candidate splitted S) [0..<length splitted])"
    using neq len
    unfolding splitDomain_def Let_def D0_def [symmetric] S_def [symmetric] P_def [symmetric]
      splitted_def [symmetric] by simp
  have "list_all (\<lambda>c. trailing_dots c = 1) (map (candidate splitted S) [0..<length splitted])"
    using candidate_trailing [OF _ wf sfx] by (simp add: list_all_iff)
  with sd sp_ne show ?thesis by simp
qed

subsection \<open>The lookup loop and the candidates of a name given by its labels\<close>

lemma LookupDomain_loop_first:
  "\<exists>x\<in>set cs. x \<in> domainsFilterList st \<Longrightarrow>
   \<exists>k<length cs. LookupDomain_loop st cs = (True, cs ! k) \<and> cs ! k \<in> domainsFilterList st
      \<and> (\<forall>j<k. cs ! j \<notin> domainsFilterList st)"
proof (induction cs)
  case Nil
  then show ?case by simp
next
  case (Cons c cs)
  show ?case
  proof (cases "c \<in> domainsFilterList st")
    case True
    then have "LookupDomain_loop st (c # cs) = (True, (c # cs) ! 0) \<and> (c # cs) ! 0 \<in> domainsFilterList st
      \<and> (\<forall>j<0. (c # cs) ! j \<notin> domainsFilterList st)" by simp
    then show ?thesis by blast
  next
    case False
    with Cons.prems have "\<exists>x\<in>set cs. x \<in> domainsFilterList st" by auto
    from Cons.IH [OF this] obtain k where k: "k < length cs"
      "LookupDomain_loop st cs = (True, cs ! k)" "cs ! k \<in> domainsFilterList st"
      "\<forall>j<k. cs ! j \<notin> domainsFilterList st" by blast
    have "\<forall>j<Suc k. (c # cs) ! j \<notin> domainsFilterList st"
      using False k(4) by (auto simp: nth_Cons split: nat.splits)
    with k False have "Suc k < length (c # cs) \<and> LookupDomain_loop st (c # cs) = (True, (c # cs) ! Suc k)
      \<and> (c # cs) ! Suc k \<in> domainsFilterList st \<and> (\<forall>j<Suc k. (c # cs) ! j \<notin> domainsFilterList st)"
      by simp
    then show ?thesis by blast
  qed
qed

lemma LookupDomain_loop_hit:
  "LookupDomain_loop st cs = (True, m) \<Longrightarrow> m \<in> set cs \<and> m \<in> domainsFilterList st"
  by (induction cs) (auto split: if_splits)

lemma LookupDomain_loop_miss:
  "list_all (\<lambda>c. c \<notin> domainsFilterList st) cs \<Longrightarrow> LookupDomain_loop st cs = (False, [])"
  by (induction cs) auto

lemma candidate_cand:
  assumes "suffix \<noteq> []" "last suffix \<noteq> dot"
  shows "candidate splitted suffix idx = cand splitted suffix idx"
  using assms by (simp add: candidate_def cand_def Let_def)

lemma splitDomain_labels:
  assumes D: "Trim fullDomain dot = Join labels [dot] @ [dot] @ PublicSuffix (Trim fullDomain dot)"
    and ne: "labels \<noteq> []" and wf: "list_all is_label labels"
  shows "splitDomain PublicSuffix fullDomain =
           Some (map (cand labels (PublicSuffix (Trim fullDomain dot))) [0..<length labels])"
proof -
  define dom where "dom = Trim fullDomain dot"
  define S where "S = PublicSuffix dom"
  define J where "J = Join labels [dot]"
  have dom: "dom = J @ [dot] @ S" using D by (simp add: dom_def S_def J_def)
  then have "dom \<noteq> []" by simp
  then have lastD: "last dom \<noteq> dot" unfolding dom_def by (rule Trim_last)
  have S_ne: "S \<noteq> []" using lastD dom by auto
  then have lastS: "last S \<noteq> dot" using lastD dom by simp
  have neq: "S \<noteq> dom"
  proof
    assume "S = dom"
    then have "length S = length dom" by simp
    then show False using dom by simp
  qed
  have len: "\<not> length dom < length S" using dom by simp
  have tk: "take (length dom - length S) dom = J @ [dot]" using dom by simp
  have hdl: "is_label (hd labels)" and lastl: "is_label (last labels)"
    using ne wf by (auto simp: list_all_iff)
  have J_ne: "J \<noteq> []" and lastJ: "last J \<noteq> dot"
    using Join_last [of labels "[dot]"] ne lastl
    by (auto simp: J_def is_label_def wf_label_def list_all_iff)
  have hdJ: "hd J \<noteq> dot"
    using Join_hd [of labels "[dot]"] ne hdl
    by (cases "hd labels") (auto simp: J_def is_label_def wf_label_def)
  have trimJ: "Trim (J @ [dot]) dot = J" using J_ne hdJ lastJ by (rule Trim_snoc)
  have fields: "FieldsFunc J (\<lambda>r. r = dot) = labels"
    unfolding FieldsFunc_def J_def using wf by (simp add: is_label_def FieldsFunc_loop_Join)
  have cands: "candidate labels S = cand labels S"
    using candidate_cand [OF S_ne lastS] by (rule ext)
  show ?thesis
    using neq len tk trimJ fields cands
    unfolding splitDomain_def Let_def dom_def [symmetric] S_def [symmetric] by simp
qed

subsection \<open>The example public suffix table\<close>

lemmas string_eval = Trim_def trimLeftByte_def trimRightByte_def dot_def FieldsFunc_def
  candidate_def cand_def Let_def
lemmas demo_eval = PublicSuffix_demo_def PublicSuffix_table_def rule_applies_def HasSuffix_def
  longer_def lastLabel_def

lemmas env_eval = env_demo_def env_unset_def env_missing_def env_touched_def st_demo_def
  parser_bad_def parser_good_def

lemma HasSuffix_append: "HasSuffix (p @ s) s"
  by (simp add: HasSuffix_def)

lemma HasSuffix_lastLabel: "HasSuffix s (lastLabel s)"
proof -
  have "rev (rev s) = rev (takeWhile (\<lambda>c. c \<noteq> dot) (rev s) @ dropWhile (\<lambda>c. c \<noteq> dot) (rev s))"
    by (simp only: takeWhile_dropWhile_id)
  then have "s = rev (dropWhile (\<lambda>c. c \<noteq> dot) (rev s)) @ lastLabel s"
    by (simp only: rev_rev_ident rev_append lastLabel_def)
  then show ?thesis using HasSuffix_append by metis
qed

lemma fold_longer_mem: "fold longer rs r \<in> set (r # rs)"
  by (induction rs arbitrary: r) (auto simp: longer_def split: if_splits)

lemma rule_applies_HasSuffix: "rule_applies domain rule \<Longrightarrow> HasSuffix domain rule"
  unfolding rule_applies_def
proof (elim disjE)
  assume "domain = rule"
  then show ?thesis using HasSuffix_append [of "[]" rule] by simp
next
  assume "HasSuffix domain (dot # rule)"
  then have "domain = take (length domain - length (dot # rule)) domain @ dot # rule"
    unfolding HasSuffix_def by (metis append_take_drop_id)
  then have "domain = (take (length domain - length (dot # rule)) domain @ [dot]) @ rule" by simp
  then show ?thesis using HasSuffix_append by metis
qed

lemma PublicSuffix_table_suffix: "HasSuffix domain (PublicSuffix_table rules domain)"
proof (cases "filter (rule_applies domain) rules")
  case Nil
  then show ?thesis by (simp add: PublicSuffix_table_def HasSuffix_lastLabel)
next
  case (Cons r rs)
  have "fold longer rs r \<in> set (filter (rule_applies domain) rules)"
    using fold_longer_mem [of rs r] Cons by simp
  then have "rule_applies domain (fold longer rs r)" by simp
  then show ?thesis using Cons by (simp add: PublicSuffix_table_def rule_applies_HasSuffix)
qed

section \<open>The claims\<close>

text \<open>
  Claim C1, as stated: for a domain that is not in the domain set, an exact lookup
  (\<open>filterSubdomains\<close> false) returns \<open>(false, "")\<close>. The exact branch returns the
  pair of the membership test and the queried name itself, so at the name
  \<open>a.example.co.uk\<close>, absent from the set, the second component is that name and not
  the empty string.
\<close>

theorem LookupDomain_exact_miss_counterexample:
  "''a.example.co.uk'' \<notin> domainsFilterList st_demo
   \<and> LookupDomain PublicSuffix_demo st_demo ''a.example.co.uk'' False \<noteq> Some (False, [])"
  by (simp add: LookupDomain_def st_demo_def)

text \<open>
  Claim C1, amended: for every domain \<open>d\<close> that is not in the domain set, the exact
  lookup returns \<open>(false, d)\<close>: the second component is the queried name.
\<close>

theorem LookupDomain_exact_miss:
  assumes "fullDomain \<notin> domainsFilterList st"
  shows "LookupDomain PublicSuffix st fullDomain False = Some (False, fullDomain)"
  using assms by (simp add: LookupDomain_def)

theorem LookupDomain_exact_miss_witness:
  "''a.example.co.uk'' \<notin> domainsFilterList st_demo
   \<and> LookupDomain PublicSuffix_demo st_demo ''a.example.co.uk'' False
       = Some (False, ''a.example.co.uk'')"
proof -
  have h: "''a.example.co.uk'' \<notin> domainsFilterList st_demo" by (simp add: st_demo_def)
  from h LookupDomain_exact_miss [of "''a.example.co.uk''" st_demo PublicSuffix_demo, OF h]
  show ?thesis by simp
qed

text \<open>
  Claim C2: when the public suffix of \<open>a.b.example.co.uk\<close> is \<open>co.uk\<close>, \<open>splitDomain\<close>
  returns exactly \<open>a.b.example.co.uk.\<close>, \<open>b.example.co.uk.\<close>, \<open>example.co.uk.\<close>, in this
  order, each with one trailing dot.
\<close>

theorem splitDomain_hierarchy_order:
  assumes "PublicSuffix ''a.b.example.co.uk'' = ''co.uk''"
  shows "splitDomain PublicSuffix ''a.b.example.co.uk''
           = Some [''a.b.example.co.uk.'', ''b.example.co.uk.'', ''example.co.uk.'']"
  using assms by (simp add: splitDomain_def string_eval)

theorem splitDomain_hierarchy_order_witness:
  "PublicSuffix_demo ''a.b.example.co.uk'' = ''co.uk''
   \<and> splitDomain PublicSuffix_demo ''a.b.example.co.uk''
        = Some [''a.b.example.co.uk.'', ''b.example.co.uk.'', ''example.co.uk.'']"
proof -
  have h: "PublicSuffix_demo ''a.b.example.co.uk'' = ''co.uk''"
    by (simp add: demo_eval dot_def)
  from h splitDomain_hierarchy_order [of PublicSuffix_demo, OF h] show ?thesis by simp
qed

text \<open>
  Claim C3: take a queried name whose trimmed form is a non-empty sequence of labels
  in front of its public suffix, and let the domain set contain its registrable root,
  that is the last label, a dot, the public suffix and a trailing dot. Then the lookup
  with \<open>filterSubdomains\<close> true returns true together with the first candidate, from the
  most specific on, that is in the set; when no more specific candidate is in the set,
  this is the registrable root.
\<close>

theorem LookupDomain_registrable_root:
  assumes D: "Trim fullDomain dot = Join labels [dot] @ [dot] @ PublicSuffix (Trim fullDomain dot)"
    and ne: "labels \<noteq> []" and wf: "list_all is_label labels"
    and root: "last labels @ [dot] @ PublicSuffix (Trim fullDomain dot) @ [dot] \<in> domainsFilterList st"
  shows "(\<exists>k<length labels.
            LookupDomain PublicSuffix st fullDomain True
              = Some (True, cand labels (PublicSuffix (Trim fullDomain dot)) k)
            \<and> cand labels (PublicSuffix (Trim fullDomain dot)) k \<in> domainsFilterList st
            \<and> (\<forall>j<k. cand labels (PublicSuffix (Trim fullDomain dot)) j \<notin> domainsFilterList st))
       \<and> ((\<forall>j<length labels - 1.
              cand labels (PublicSuffix (Trim fullDomain dot)) j \<notin> domainsFilterList st) \<longrightarrow>
            LookupDomain PublicSuffix st fullDomain True
              = Some (True, last labels @ [dot] @ PublicSuffix (Trim fullDomain dot) @ [dot]))"
proof -
  define S where "S = PublicSuffix (Trim fullDomain dot)"
  define cs where "cs = map (cand labels S) [0..<length labels]"
  have sd: "splitDomain PublicSuffix fullDomain = Some cs"
    unfolding cs_def S_def using D ne wf by (rule splitDomain_labels)
  have L: "LookupDomain PublicSuffix st fullDomain True = Some (LookupDomain_loop st cs)"
    using sd by (simp add: LookupDomain_def)
  have rootc: "cand labels S (length labels - 1) = last labels @ [dot] @ S @ [dot]"
    using ne by (simp add: cand_def drop_last)
  have "cand labels S (length labels - 1) \<in> set cs" using ne by (simp add: cs_def)
  then have "\<exists>x\<in>set cs. x \<in> domainsFilterList st" using root rootc S_def by auto
  from LookupDomain_loop_first [OF this] obtain k where k: "k < length cs"
    "LookupDomain_loop st cs = (True, cs ! k)" "cs ! k \<in> domainsFilterList st"
    "\<forall>j<k. cs ! j \<notin> domainsFilterList st" by blast
  have nth: "\<And>j. j < length labels \<Longrightarrow> cs ! j = cand labels S j" by (simp add: cs_def)
  have len: "length cs = length labels" by (simp add: cs_def)
  have first: "\<exists>k<length labels.
            LookupDomain PublicSuffix st fullDomain True = Some (True, cand labels S k)
            \<and> cand labels S k \<in> domainsFilterList st
            \<and> (\<forall>j<k. cand labels S j \<notin> domainsFilterList st)"
    using k L nth len by (intro exI [of _ k]) auto
  have only: "LookupDomain PublicSuffix st fullDomain True = Some (True, last labels @ [dot] @ S @ [dot])"
    if none: "\<forall>j<length labels - 1. cand labels S j \<notin> domainsFilterList st"
  proof -
    have "\<not> k < length labels - 1" using none k(3) nth k(1) len by auto
    then have "k = length labels - 1" using k(1) len by simp
    then show ?thesis using L k(2) nth rootc ne by simp
  qed
  from first only show ?thesis unfolding S_def by blast
qed

theorem LookupDomain_registrable_root_witness:
  "Trim ''a.example.co.uk'' dot
     = Join [''a'', ''example''] [dot] @ [dot] @ PublicSuffix_demo (Trim ''a.example.co.uk'' dot)
   \<and> list_all is_label [''a'', ''example'']
   \<and> ''example.co.uk.'' \<in> domainsFilterList st_demo
   \<and> LookupDomain PublicSuffix_demo st_demo ''a.example.co.uk'' True = Some (True, ''example.co.uk.'')"
proof -
  have t: "Trim ''a.example.co.uk'' dot = ''a.example.co.uk''"
    by (simp add: string_eval)
  have p: "PublicSuffix_demo ''a.example.co.uk'' = ''co.uk''"
    by (simp add: demo_eval dot_def)
  have h1: "Trim ''a.example.co.uk'' dot
     = Join [''a'', ''example''] [dot] @ [dot] @ PublicSuffix_demo (Trim ''a.example.co.uk'' dot)"
    unfolding t p by (simp add: dot_def)
  have h2: "[''a'', ''example''] \<noteq> []" by simp
  have h3: "list_all is_label [''a'', ''example'']"
    by (simp add: is_label_def wf_label_def dot_def)
  have h4: "last [''a'', ''example''] @ [dot] @ PublicSuffix_demo (Trim ''a.example.co.uk'' dot) @ [dot]
              \<in> domainsFilterList st_demo"
    unfolding t p by (simp add: st_demo_def dot_def)
  have h5: "\<forall>j<length [''a'', ''example''] - 1.
              cand [''a'', ''example''] (PublicSuffix_demo (Trim ''a.example.co.uk'' dot)) j
                \<notin> domainsFilterList st_demo"
    unfolding t p by (simp add: st_demo_def cand_def dot_def)
  from LookupDomain_registrable_root [where fullDomain = "''a.example.co.uk''" and labels = "[''a'', ''example'']"
      and PublicSuffix = PublicSuffix_demo and st = st_demo, OF h1 h2 h3 h4] h5
  have "LookupDomain PublicSuffix_demo st_demo ''a.example.co.uk'' True
          = Some (True, last [''a'', ''example''] @ [dot] @ PublicSuffix_demo (Trim ''a.example.co.uk'' dot) @ [dot])"
    by blast
  then have "LookupDomain PublicSuffix_demo st_demo ''a.example.co.uk'' True = Some (True, ''example.co.uk.'')"
    unfolding t p by (simp add: dot_def)
  with h1 h3 show ?thesis by (simp add: st_demo_def)
qed

text \<open>
  Claim C4: when the dot-trimmed input is its own public suffix, \<open>splitDomain\<close> returns
  the one-element sequence holding the trimmed input, with no dot appended; for
  \<open>co.uk\<close> the result is the single candidate \<open>co.uk\<close>.
\<close>

theorem splitDomain_bare_suffix:
  "(PublicSuffix (Trim domain dot) = Trim domain dot \<longrightarrow>
      splitDomain PublicSuffix domain = Some [Trim domain dot])
   \<and> (PublicSuffix ''co.uk'' = ''co.uk'' \<longrightarrow> splitDomain PublicSuffix ''co.uk'' = Some [''co.uk''])"
proof -
  have "Trim ''co.uk'' dot = ''co.uk''" by (simp add: string_eval)
  then show ?thesis by (simp add: splitDomain_def)
qed

theorem splitDomain_bare_suffix_witness:
  "PublicSuffix_demo (Trim ''.co.uk.'' dot) = Trim ''.co.uk.'' dot
   \<and> splitDomain PublicSuffix_demo ''.co.uk.'' = Some [''co.uk'']
   \<and> PublicSuffix_demo ''co.uk'' = ''co.uk''
   \<and> splitDomain PublicSuffix_demo ''co.uk'' = Some [''co.uk'']"
proof -
  have t: "Trim ''.co.uk.'' dot = ''co.uk''" by (simp add: string_eval)
  have h: "PublicSuffix_demo ''co.uk'' = ''co.uk''" by (simp add: demo_eval dot_def)
  from splitDomain_bare_suffix [of PublicSuffix_demo "''.co.uk.''"] t h show ?thesis by simp
qed

text \<open>
  Claim C5: if the parse of the configured file fails, the cycle ends with the four
  sets, the recorded path and the recorded modification time as they were, and every
  lookup answers as before. \<open>parseFile\<close> is the one modelled from the spec.
\<close>

theorem failed_parse_keeps_store:
  assumes "parser (getFilePath e) = Inl err"
  shows "loaded (fst (checkAndUpdateFilterList (parseFile parser) e st)) = loaded st
       \<and> LookupIP String (fst (checkAndUpdateFilterList (parseFile parser) e st)) ip = LookupIP String st ip
       \<and> LookupDomain PublicSuffix (fst (checkAndUpdateFilterList (parseFile parser) e st)) d sub
           = LookupDomain PublicSuffix st d sub
       \<and> LookupASN (fst (checkAndUpdateFilterList (parseFile parser) e st)) n = LookupASN st n
       \<and> LookupCountry (fst (checkAndUpdateFilterList (parseFile parser) e st)) cc = LookupCountry st cc"
proof -
  define st' where "st' = fst (checkAndUpdateFilterList (parseFile parser) e st)"
  have more: "st' = st \<or> st' = st\<lparr>parserTask := Some (now_schedule e + 1 * Minute)\<rparr>"
    unfolding st'_def using assms
    by (simp add: checkAndUpdateFilterList_def parseFile_def Let_def)
  then have l: "loaded st' = loaded st" by (auto simp: loaded_def)
  from more have d: "domainsFilterList st' = domainsFilterList st" by auto
  have "LookupDomain_loop st' cs = LookupDomain_loop st cs" for cs
    by (induction cs) (simp_all add: d)
  then have "LookupDomain PublicSuffix st' d sub = LookupDomain PublicSuffix st d sub"
    by (simp add: LookupDomain_def d split: option.splits)
  moreover from more have "LookupIP String st' ip = LookupIP String st ip"
    "LookupASN st' n = LookupASN st n" "LookupCountry st' cc = LookupCountry st cc"
    by (auto simp: LookupIP_def LookupASN_def LookupCountry_def)
  ultimately show ?thesis using l unfolding st'_def by simp
qed

theorem failed_parse_keeps_store_witness:
  "parser_bad (getFilePath env_touched) = Inl ''malformed''
   \<and> snd (checkAndUpdateFilterList (parseFile parser_bad) env_touched st_demo)
       = [EvSchedule 60000007000, EvStat ''/etc/list.txt'', EvParse ''/etc/list.txt'']
   \<and> loaded (fst (checkAndUpdateFilterList (parseFile parser_bad) env_touched st_demo))
       = loaded st_demo
   \<and> LookupDomain PublicSuffix_demo
        (fst (checkAndUpdateFilterList (parseFile parser_bad) env_touched st_demo))
        ''a.example.co.uk'' True
       = LookupDomain PublicSuffix_demo st_demo ''a.example.co.uk'' True"
proof -
  have h: "parser_bad (getFilePath env_touched) = Inl ''malformed''"
    by (simp add: parser_bad_def)
  have ev: "snd (checkAndUpdateFilterList (parseFile parser_bad) env_touched st_demo)
       = [EvSchedule 60000007000, EvStat ''/etc/list.txt'', EvParse ''/etc/list.txt'']"
    by (simp add: checkAndUpdateFilterList_def parseFile_def Let_def Minute_def env_eval)
  from failed_parse_keeps_store [where parser = parser_bad and e = env_touched and st = st_demo
      and PublicSuffix = PublicSuffix_demo and d = "''a.example.co.uk''" and sub = True, OF h] h ev
  show ?thesis by simp
qed

text \<open>
  Claim C6: if the configured path is the recorded one and stat succeeds with the
  recorded modification time, the cycle performs no parse and leaves the four sets, the
  recorded path and the recorded modification time unchanged; so does a second cycle
  that finds the same path and the same modification time. This holds whatever
  \<open>parseFile\<close> does.
\<close>

theorem unchanged_file_is_noop:
  assumes "getFilePath e = filterListFilePath st"
    and "Stat e (getFilePath e) = Some (filterListFileModifiedTime st)"
    and "getFilePath e2 = getFilePath e"
    and "Stat e2 (getFilePath e2) = Stat e (getFilePath e)"
  shows "loaded (fst (checkAndUpdateFilterList pf e st)) = loaded st
       \<and> filter is_parse (snd (checkAndUpdateFilterList pf e st)) = []
       \<and> loaded (fst (checkAndUpdateFilterList pf e2 (fst (checkAndUpdateFilterList pf e st)))) = loaded st
       \<and> filter is_parse (snd (checkAndUpdateFilterList pf e2 (fst (checkAndUpdateFilterList pf e st)))) = []"
  using assms by (simp add: checkAndUpdateFilterList_def Let_def loaded_def)

theorem unchanged_file_is_noop_witness:
  "getFilePath env_demo = filterListFilePath st_demo
   \<and> Stat env_demo (getFilePath env_demo) = Some (filterListFileModifiedTime st_demo)
   \<and> loaded (fst (checkAndUpdateFilterList (parseFile parser_good) env_demo st_demo)) = loaded st_demo
   \<and> snd (checkAndUpdateFilterList (parseFile parser_good) env_demo st_demo)
       = [EvSchedule 60000007000, EvStat ''/etc/list.txt'']
   \<and> loaded (fst (checkAndUpdateFilterList (parseFile parser_good) env_demo
               (fst (checkAndUpdateFilterList (parseFile parser_good) env_demo st_demo))))
       = loaded st_demo"
proof -
  have h1: "getFilePath env_demo = filterListFilePath st_demo" by (simp add: env_eval)
  have h2: "Stat env_demo (getFilePath env_demo) = Some (filterListFileModifiedTime st_demo)"
    by (simp add: env_eval)
  have ev: "snd (checkAndUpdateFilterList (parseFile parser_good) env_demo st_demo)
       = [EvSchedule 60000007000, EvStat ''/etc/list.txt'']"
    by (simp add: checkAndUpdateFilterList_def Let_def Minute_def env_eval)
  from unchanged_file_is_noop [where e = env_demo and st = st_demo and ?e2.0 = env_demo
      and pf = "parseFile parser_good", OF h1 h2 refl refl] h1 h2 ev
  show ?thesis by simp
qed

text \<open>
  Claim C7: with an empty configured path the function returns without any event and
  without changing the state; with a non-empty path the schedule of the next check, one
  minute after the current time, is the first event, before the stat and before the
  parse, if there is one. So a check is scheduled exactly when the path is non-empty,
  whatever \<open>parseFile\<close> returns.
\<close>

theorem schedule_iff_path_configured:
  "(getFilePath e = [] \<longrightarrow> checkAndUpdateFilterList pf e st = (st, []))
   \<and> (getFilePath e \<noteq> [] \<longrightarrow>
        (\<exists>rest. snd (checkAndUpdateFilterList pf e st)
                  = EvSchedule (now_schedule e + 1 * Minute) # EvStat (getFilePath e) # rest
               \<and> (rest = [] \<or> rest = [EvParse (getFilePath e)])))
   \<and> (list_ex is_schedule (snd (checkAndUpdateFilterList pf e st)) \<longleftrightarrow> getFilePath e \<noteq> [])"
  by (auto simp: checkAndUpdateFilterList_def Let_def split: prod.splits option.splits)

theorem schedule_iff_path_configured_witness:
  "getFilePath env_unset = []
   \<and> checkAndUpdateFilterList (parseFile parser_bad) env_unset st_demo = (st_demo, [])
   \<and> getFilePath env_touched \<noteq> []
   \<and> fst (parseFile parser_bad (getFilePath env_touched) st_demo) \<noteq> None
   \<and> snd (checkAndUpdateFilterList (parseFile parser_bad) env_touched st_demo)
       = [EvSchedule 60000007000, EvStat ''/etc/list.txt'', EvParse ''/etc/list.txt'']
   \<and> list_ex is_schedule (snd (checkAndUpdateFilterList (parseFile parser_bad) env_touched st_demo))"
proof -
  have h1: "getFilePath env_unset = []" by (simp add: env_eval)
  have h2: "getFilePath env_touched \<noteq> []" by (simp add: env_eval)
  have f: "fst (parseFile parser_bad (getFilePath env_touched) st_demo) \<noteq> None"
    by (simp add: parseFile_def parser_bad_def)
  have ev: "snd (checkAndUpdateFilterList (parseFile parser_bad) env_touched st_demo)
       = [EvSchedule 60000007000, EvStat ''/etc/list.txt'', EvParse ''/etc/list.txt'']"
    by (simp add: checkAndUpdateFilterList_def parseFile_def Let_def Minute_def env_eval)
  from schedule_iff_path_configured [of env_unset "parseFile parser_bad" st_demo]
    schedule_iff_path_configured [of env_touched "parseFile parser_bad" st_demo]
    h1 h2 f ev
  show ?thesis by simp
qed

text \<open>
  Claim C8: when the configured path is non-empty and stat fails, the current time
  stands in for the modification time: provided it differs from the recorded
  modification time, or the path differs from the recorded path, the cycle parses the
  file, and a successful parse records the current time and the path.
\<close>

theorem stat_failure_uses_now:
  assumes "getFilePath e \<noteq> []"
    and "Stat e (getFilePath e) = None"
    and "now_stat e \<noteq> filterListFileModifiedTime st \<or> getFilePath e \<noteq> filterListFilePath st"
  shows "snd (checkAndUpdateFilterList pf e st)
           = [EvSchedule (now_schedule e + 1 * Minute), EvStat (getFilePath e), EvParse (getFilePath e)]
       \<and> (fst (pf (getFilePath e) (st\<lparr>parserTask := Some (now_schedule e + 1 * Minute)\<rparr>)) = None \<longrightarrow>
            filterListFileModifiedTime (fst (checkAndUpdateFilterList pf e st)) = now_stat e
            \<and> filterListFilePath (fst (checkAndUpdateFilterList pf e st)) = getFilePath e)"
  using assms
  by (auto simp: checkAndUpdateFilterList_def Let_def split: prod.splits option.splits)

theorem stat_failure_uses_now_witness:
  "getFilePath env_missing \<noteq> []
   \<and> Stat env_missing (getFilePath env_missing) = None
   \<and> now_stat env_missing \<noteq> filterListFileModifiedTime st_demo
   \<and> snd (checkAndUpdateFilterList (parseFile parser_good) env_missing st_demo)
       = [EvSchedule 60000007000, EvStat ''/etc/list.txt'', EvParse ''/etc/list.txt'']
   \<and> fst (parseFile parser_good (getFilePath env_missing)
            (st_demo\<lparr>parserTask := Some (now_schedule env_missing + 1 * Minute)\<rparr>)) = None
   \<and> filterListFileModifiedTime (fst (checkAndUpdateFilterList (parseFile parser_good) env_missing st_demo))
       = 7001"
proof -
  have h1: "getFilePath env_missing \<noteq> []" by (simp add: env_eval)
  have h2: "Stat env_missing (getFilePath env_missing) = None" by (simp add: env_eval)
  have h3: "now_stat env_missing \<noteq> filterListFileModifiedTime st_demo" by (simp add: env_eval)
  then have h3': "now_stat env_missing \<noteq> filterListFileModifiedTime st_demo
      \<or> getFilePath env_missing \<noteq> filterListFilePath st_demo" by simp
  have f: "fst (parseFile parser_good (getFilePath env_missing)
            (st_demo\<lparr>parserTask := Some (now_schedule env_missing + 1 * Minute)\<rparr>)) = None"
    by (simp add: parseFile_def parser_good_def)
  have n: "now_stat env_missing = 7001" "now_schedule env_missing + 1 * Minute = 60000007000"
    "getFilePath env_missing = ''/etc/list.txt''"
    by (simp_all add: env_eval Minute_def)
  from stat_failure_uses_now [where e = env_missing and st = st_demo
      and pf = "parseFile parser_good", OF h1 h2 h3'] h1 h2 h3 f n
  show ?thesis by simp
qed

text \<open>
  Claim C10: let the public suffix of the trimmed input be a suffix of it. If the
  trimmed input is not its own public suffix, \<open>splitDomain\<close> returns at least one
  candidate and every candidate ends in exactly one dot, so a lookup with
  \<open>filterSubdomains\<close> true that matches returns an entry of the set that ends in exactly
  one dot. If the trimmed input is its own public suffix, the single candidate is the
  trimmed input, which ends in no dot.
\<close>

theorem splitDomain_candidates_end_in_one_dot:
  assumes contract: "HasSuffix (Trim domain dot) (PublicSuffix (Trim domain dot))"
  shows "(PublicSuffix (Trim domain dot) \<noteq> Trim domain dot \<longrightarrow>
           (\<exists>cs. splitDomain PublicSuffix domain = Some cs \<and> cs \<noteq> []
                \<and> list_all (\<lambda>c. trailing_dots c = 1) cs
                \<and> (\<exists>r. LookupDomain PublicSuffix st domain True = Some r
                       \<and> (fst r \<longrightarrow> snd r \<in> domainsFilterList st \<and> trailing_dots (snd r) = 1))))
       \<and> (PublicSuffix (Trim domain dot) = Trim domain dot \<longrightarrow>
            splitDomain PublicSuffix domain = Some [Trim domain dot]
            \<and> trailing_dots (Trim domain dot) = 0)"
proof (intro conjI impI)
  assume nonbare: "PublicSuffix (Trim domain dot) \<noteq> Trim domain dot"
  from splitDomain_contract [of domain PublicSuffix, OF contract nonbare] obtain cs where
    cs: "splitDomain PublicSuffix domain = Some cs" "cs \<noteq> []"
      "list_all (\<lambda>c. trailing_dots c = 1) cs" by blast
  have L: "LookupDomain PublicSuffix st domain True = Some (LookupDomain_loop st cs)"
    using cs(1) by (simp add: LookupDomain_def)
  have "fst (LookupDomain_loop st cs) \<longrightarrow>
          snd (LookupDomain_loop st cs) \<in> domainsFilterList st
          \<and> trailing_dots (snd (LookupDomain_loop st cs)) = 1"
  proof
    assume "fst (LookupDomain_loop st cs)"
    then have "LookupDomain_loop st cs = (True, snd (LookupDomain_loop st cs))"
      by (cases "LookupDomain_loop st cs") simp
    from LookupDomain_loop_hit [OF this] cs(3)
    show "snd (LookupDomain_loop st cs) \<in> domainsFilterList st
          \<and> trailing_dots (snd (LookupDomain_loop st cs)) = 1"
      by (simp add: list_all_iff)
  qed
  with cs L show "\<exists>cs. splitDomain PublicSuffix domain = Some cs \<and> cs \<noteq> []
                \<and> list_all (\<lambda>c. trailing_dots c = 1) cs
                \<and> (\<exists>r. LookupDomain PublicSuffix st domain True = Some r
                       \<and> (fst r \<longrightarrow> snd r \<in> domainsFilterList st \<and> trailing_dots (snd r) = 1))"
    by blast
next
  assume bare: "PublicSuffix (Trim domain dot) = Trim domain dot"
  then show "splitDomain PublicSuffix domain = Some [Trim domain dot]"
    by (simp add: splitDomain_def)
next
  show "trailing_dots (Trim domain dot) = 0"
    using Trim_last [of domain dot] by (intro trailing_dots_none) blast
qed

theorem splitDomain_candidates_end_in_one_dot_witness:
  "HasSuffix (Trim ''a.example.co.uk'' dot) (PublicSuffix_demo (Trim ''a.example.co.uk'' dot))
   \<and> PublicSuffix_demo (Trim ''a.example.co.uk'' dot) \<noteq> Trim ''a.example.co.uk'' dot
   \<and> (\<exists>cs. splitDomain PublicSuffix_demo ''a.example.co.uk'' = Some cs \<and> cs \<noteq> []
          \<and> list_all (\<lambda>c. trailing_dots c = 1) cs)
   \<and> HasSuffix (Trim ''co.uk'' dot) (PublicSuffix_demo (Trim ''co.uk'' dot))
   \<and> PublicSuffix_demo (Trim ''co.uk'' dot) = Trim ''co.uk'' dot
   \<and> splitDomain PublicSuffix_demo ''co.uk'' = Some [''co.uk'']
   \<and> trailing_dots ''co.uk'' = 0"
proof -
  have t1: "Trim ''a.example.co.uk'' dot = ''a.example.co.uk''" by (simp add: string_eval)
  have p1: "PublicSuffix_demo ''a.example.co.uk'' = ''co.uk''" by (simp add: demo_eval dot_def)
  have t2: "Trim ''co.uk'' dot = ''co.uk''" by (simp add: string_eval)
  have p2: "PublicSuffix_demo ''co.uk'' = ''co.uk''" by (simp add: demo_eval dot_def)
  have c1: "HasSuffix (Trim ''a.example.co.uk'' dot) (PublicSuffix_demo (Trim ''a.example.co.uk'' dot))"
    unfolding t1 p1 by (simp add: HasSuffix_def)
  have n1: "PublicSuffix_demo (Trim ''a.example.co.uk'' dot) \<noteq> Trim ''a.example.co.uk'' dot"
    unfolding t1 p1 by simp
  have c2: "HasSuffix (Trim ''co.uk'' dot) (PublicSuffix_demo (Trim ''co.uk'' dot))"
    unfolding t2 p2 by (simp add: HasSuffix_def)
  have b2: "PublicSuffix_demo (Trim ''co.uk'' dot) = Trim ''co.uk'' dot"
    unfolding t2 p2 by simp
  from splitDomain_candidates_end_in_one_dot [where domain = "''a.example.co.uk''"
      and PublicSuffix = PublicSuffix_demo and st = st_demo, OF c1] n1
  have A: "\<exists>cs. splitDomain PublicSuffix_demo ''a.example.co.uk'' = Some cs \<and> cs \<noteq> []
          \<and> list_all (\<lambda>c. trailing_dots c = 1) cs" by blast
  from splitDomain_candidates_end_in_one_dot [where domain = "''co.uk''"
      and PublicSuffix = PublicSuffix_demo and st = st_demo, OF c2] b2
  have B: "splitDomain PublicSuffix_demo ''co.uk'' = Some [Trim ''co.uk'' dot]
      \<and> trailing_dots (Trim ''co.uk'' dot) = 0" by blast
  from A B c1 n1 c2 b2 show ?thesis unfolding t2 by blast
qed

end
